theory Spec2Isabelle
  imports Main "HOL-Library.AList"
begin

section \<open>Data model of \<^verbatim>\<open>DeltaBundler/Serializers/hmrJSBundle.js\<close>\<close>

text \<open>
  A module of the dependency graph. The serializer reads two of its fields itself,
  \<^verbatim>\<open>path\<close> and \<^verbatim>\<open>inverseDependencies\<close> (a JavaScript \<^verbatim>\<open>Set\<close>, enumerated in
  insertion order: a list); every other field is only handed to helpers and stays in
  the extension part of the record.
\<close>

record Module =
  path :: string
  inverseDependencies :: "string list"

text \<open>
  \<^verbatim>\<open>graph.dependencies\<close> is a JavaScript \<^verbatim>\<open>Map\<close> from paths to modules: a finite
  association list, \<^verbatim>\<open>get\<close> being \<^const>\<open>map_of\<close>.
\<close>

record 'm Graph =
  dependencies :: "(string \<times> 'm Module_scheme) list"

text \<open>
  A plain JavaScript object with string keys: its own properties in insertion order.
  Writing a property that exists keeps its place (\<^const>\<open>AList.update\<close>).
\<close>

type_synonym 'v js_object = "(string \<times> 'v) list"

text \<open>
  An object written \<^verbatim>\<open>{}\<close> inherits from \<^verbatim>\<open>Object.prototype\<close>, and the operator
  \<^verbatim>\<open>in\<close> also answers true for the property names found there.
\<close>

definition objectPrototypeKeys :: "string list" where
  "objectPrototypeKeys =
     [''constructor'', ''__defineGetter__'', ''__defineSetter__'', ''hasOwnProperty'',
      ''__lookupGetter__'', ''__lookupSetter__'', ''isPrototypeOf'',
      ''propertyIsEnumerable'', ''toString'', ''valueOf'', ''__proto__'',
      ''toLocaleString'']"

definition js_in :: "string \<Rightarrow> 'v js_object \<Rightarrow> bool" where
  "js_in k obj \<longleftrightarrow> k \<in> set (map fst obj) \<or> k \<in> set objectPrototypeKeys"

text \<open>
  The delta: \<^verbatim>\<open>added\<close> and \<^verbatim>\<open>modified\<close> are \<^verbatim>\<open>Map\<close>s from path to module and
  \<^verbatim>\<open>deleted\<close> is a \<^verbatim>\<open>Set\<close> of paths, all three enumerated in insertion order.
\<close>

record 'm DeltaResult =
  added :: "(string \<times> 'm Module_scheme) list"
  modified :: "(string \<times> 'm Module_scheme) list"
  deleted :: "string list"

text \<open>
  \<^verbatim>\<open>options.clientUrl\<close> is a parsed URL, an object shared with the caller; the
  serializer writes its \<^verbatim>\<open>pathname\<close> and hands the object to \<^verbatim>\<open>url.format\<close>.
  \<^verbatim>\<open>options.createModuleId\<close> gives every path its module id, an integer.
\<close>

record EntryPointURL =
  pathname :: string

record 'u Options =
  clientUrl :: "'u EntryPointURL_scheme"
  createModuleId :: "string \<Rightarrow> int"
  projectRoot :: string

text \<open>The object \<^verbatim>\<open>{...options, dev: true}\<close> that \<^verbatim>\<open>_prepareModule\<close> builds for \<^verbatim>\<open>wrapModule\<close>.\<close>

record 'u WrapOptions = "'u Options" +
  dev :: bool

text \<open>What \<^verbatim>\<open>getSourceMapInfo\<close> returns; the serializer reads its \<^verbatim>\<open>path\<close>.\<close>

record MapInfo =
  path :: string

type_synonym ModuleMap = "(int \<times> string) list"

record GeneratedModules =
  modules :: ModuleMap
  sourceMappingURLs :: "string list"
  sourceURLs :: "string list"

record HMRPayload =
  added :: ModuleMap
  modified :: ModuleMap
  deleted :: "int list"
  addedSourceMappingURLs :: "string list"
  addedSourceURLs :: "string list"
  modifiedSourceMappingURLs :: "string list"
  modifiedSourceURLs :: "string list"

text \<open>
  The helpers the file requires from other files (\<^verbatim>\<open>./helpers/js\<close>,
  \<^verbatim>\<open>./helpers/getSourceMapInfo\<close>, \<^verbatim>\<open>./helpers/getInlineSourceMappingURL\<close>,
  \<^verbatim>\<open>../../lib/addParamsToDefineCall\<close>, \<^verbatim>\<open>metro-source-map\<close>) and from Node
  (\<^verbatim>\<open>path\<close>, \<^verbatim>\<open>url\<close>) are parameters of the model, as functions of what they are
  given. \<open>fromRawMappings_toString ms x\<close> stands for
  \<^verbatim>\<open>fromRawMappings(ms).toString(undefined, {excludeSource: x})\<close>, and the flag of
  \<open>getSourceMapInfo\<close> for its \<^verbatim>\<open>excludeSource\<close> option.
\<close>

record ('m, 'u, 'i) Helpers =
  isJsModule :: "'m Module_scheme \<Rightarrow> bool"
  wrapModule :: "'m Module_scheme \<Rightarrow> 'u WrapOptions \<Rightarrow> string"
  addParamsToDefineCall :: "string \<Rightarrow> (int \<times> int list) list \<Rightarrow> string"
  getSourceMapInfo :: "'m Module_scheme \<Rightarrow> bool \<Rightarrow> 'i MapInfo_scheme"
  fromRawMappings_toString :: "'i MapInfo_scheme list \<Rightarrow> bool \<Rightarrow> string"
  getInlineSourceMappingURL :: "string \<Rightarrow> string"
  path_relative :: "string \<Rightarrow> string \<Rightarrow> string"
  path_join :: "string \<Rightarrow> string \<Rightarrow> string"
  path_dirname :: "string \<Rightarrow> string"
  path_basename :: "string \<Rightarrow> string \<Rightarrow> string"
  path_extname :: "string \<Rightarrow> string"
  url_format :: "'u EntryPointURL_scheme \<Rightarrow> string"

text \<open>
  The three arguments of \<^verbatim>\<open>hmrJSBundle\<close> are objects of the caller. A call can
  write to them, so the model returns them next to the payload.
\<close>

record ('m, 'u) Arguments =
  arg_delta :: "'m DeltaResult"
  arg_graph :: "'m Graph"
  arg_options :: "'u Options"

text \<open>
  \<^verbatim>\<open>Object.keys\<close>: the own keys that are array indices (canonical decimal numerals
  below \<open>2\<^sup>3\<^sup>2 - 1\<close>) in ascending order, then the other keys in insertion order.
\<close>

definition isDigitChar :: "char \<Rightarrow> bool" where
  "isDigitChar c \<longleftrightarrow> c \<in> set ''0123456789''"

definition digitsValue :: "string \<Rightarrow> int" where
  "digitsValue s = foldl (\<lambda>n c. 10 * n + (of_char c - 48)) 0 s"

definition isArrayIndex :: "string \<Rightarrow> bool" where
  "isArrayIndex s \<longleftrightarrow>
     s \<noteq> [] \<and> list_all isDigitChar s \<and> (s = ''0'' \<or> hd s \<noteq> CHR ''0'')
     \<and> digitsValue s < 2 ^ 32 - 1"

definition Object_keys :: "'v js_object \<Rightarrow> string list" where
  "Object_keys obj =
     sort_key digitsValue (filter isArrayIndex (map fst obj))
     @ filter (\<lambda>k. \<not> isArrayIndex k) (map fst obj)"

section \<open>The inverse-dependency resolver\<close>

text \<open>
  \<^verbatim>\<open>_getInverseDependencies(path, graph, inverseDependencies = {})\<close>, lines 145 to 169.
  The accumulator object is shared by all recursive calls; the model passes it in and
  returns it. The \<^verbatim>\<open>for\<close> loop over \<^verbatim>\<open>module.inverseDependencies\<close> is the second
  function: each round pushes \<^verbatim>\<open>inverse\<close> onto the array stored under \<^verbatim>\<open>path\<close>
  and then makes the recursive call on the accumulator. The loop only runs after
  line 160 has stored that array, and no call removes a key, so the push always finds
  it (\<open>resolver_entries\<close> below follows the array through the loop).
\<close>

function getInverseDependencies ::
    "string \<Rightarrow> 'm Graph \<Rightarrow> string list js_object \<Rightarrow> string list js_object"
  and getInverseDependencies_loop ::
    "string \<Rightarrow> string list \<Rightarrow> 'm Graph \<Rightarrow> string list js_object \<Rightarrow> string list js_object"
where
  "getInverseDependencies p graph inverseDeps =
     (if js_in p inverseDeps then inverseDeps
      else case map_of (dependencies graph) p of
             None \<Rightarrow> inverseDeps
           | Some m \<Rightarrow>
               getInverseDependencies_loop p (inverseDependencies m) graph
                 (AList.update p [] inverseDeps))"
| "getInverseDependencies_loop p [] graph inverseDeps = inverseDeps"
| "getInverseDependencies_loop p (inverseDep # rest) graph inverseDeps =
     getInverseDependencies_loop p rest graph
       (getInverseDependencies inverseDep graph
          (AList.map_entry p (\<lambda>xs. xs @ [inverseDep]) inverseDeps))"
  by pat_completeness auto

text \<open>
  The recursion is nested (the loop continues on what the recursive call returns), so
  the termination proof first needs that a call never loses a key of the accumulator.
\<close>

lemma keys_map_entry: "map fst (AList.map_entry k f xs) = map fst xs"
  by (induction xs) auto

lemma keys_update: "set (map fst (AList.update k v xs)) = insert k (set (map fst xs))"
  by (induction xs) auto

lemma getInverseDependencies_keys_mono_partial:
  "getInverseDependencies_getInverseDependencies_loop_dom (Inl (p, graph, acc)) \<Longrightarrow>
     set (map fst acc) \<subseteq> set (map fst (getInverseDependencies p graph acc))"
  "getInverseDependencies_getInverseDependencies_loop_dom (Inr (q, invs, graph, acc)) \<Longrightarrow>
     set (map fst acc) \<subseteq> set (map fst (getInverseDependencies_loop q invs graph acc))"
proof (induction p graph acc and q invs graph acc
    rule: getInverseDependencies_getInverseDependencies_loop.pinduct)
  case (1 p graph inverseDeps)
  show ?case
  proof (cases "js_in p inverseDeps")
    case True
    with 1(1) show ?thesis by (simp add: getInverseDependencies.psimps)
  next
    case False
    show ?thesis
    proof (cases "map_of (dependencies graph) p")
      case None
      with False 1(1) show ?thesis by (simp add: getInverseDependencies.psimps)
    next
      case (Some m)
      have "set (map fst inverseDeps) \<subseteq> set (map fst (AList.update p [] inverseDeps))"
        unfolding keys_update by blast
      also have "\<dots> \<subseteq> set (map fst (getInverseDependencies_loop p (inverseDependencies m)
          graph (AList.update p [] inverseDeps)))"
        using 1(2) [OF False Some] .
      finally show ?thesis
        using False Some 1(1) by (simp add: getInverseDependencies.psimps)
    qed
  qed
next
  case (2 p graph inverseDeps)
  then show ?case
    by (simp add: getInverseDependencies_loop.psimps)
next
  case (3 p inverseDep rest graph inverseDeps)
  have "set (map fst inverseDeps)
      = set (map fst (AList.map_entry p (\<lambda>xs. xs @ [inverseDep]) inverseDeps))"
    by (simp add: keys_map_entry)
  also have "\<dots> \<subseteq> set (map fst (getInverseDependencies inverseDep graph
      (AList.map_entry p (\<lambda>xs. xs @ [inverseDep]) inverseDeps)))"
    using 3(2) .
  also have "\<dots> \<subseteq> set (map fst (getInverseDependencies_loop p rest graph
      (getInverseDependencies inverseDep graph
        (AList.map_entry p (\<lambda>xs. xs @ [inverseDep]) inverseDeps))))"
    using 3(3) .
  finally show ?case
    using 3(1) by (simp add: getInverseDependencies_loop.psimps)
qed

text \<open>
  The number of graph entries that are not yet keys of the accumulator: a call that
  gets past both early returns lowers it, and no call raises it.
\<close>

definition unvisited :: "'m Graph \<Rightarrow> 'v js_object \<Rightarrow> nat" where
  "unvisited graph acc = card (set (map fst (dependencies graph)) - set (map fst acc))"

fun resolver_measure ::
  "string \<times> 'm Graph \<times> string list js_object
     + string \<times> string list \<times> 'm Graph \<times> string list js_object \<Rightarrow> nat \<times> nat" where
  "resolver_measure (Inl (p, graph, acc)) = (unvisited graph acc, 0)"
| "resolver_measure (Inr (p, invs, graph, acc)) = (unvisited graph acc, Suc (length invs))"

lemma unvisited_mono:
  "set (map fst acc) \<subseteq> set (map fst acc') \<Longrightarrow> unvisited graph acc' \<le> unvisited graph acc"
  unfolding unvisited_def by (intro card_mono) auto

lemma unvisited_update:
  assumes "map_of (dependencies graph) p = Some m" and "p \<notin> set (map fst acc)"
  shows "unvisited graph (AList.update p v acc) < unvisited graph acc"
proof -
  have p: "p \<in> set (map fst (dependencies graph))"
    using assms(1) by (metis map_of_eq_None_iff option.distinct(1) set_map)
  have "set (map fst (dependencies graph)) - set (map fst (AList.update p v acc))
      \<subseteq> set (map fst (dependencies graph)) - set (map fst acc)"
    unfolding keys_update by blast
  moreover have "p \<in> set (map fst (dependencies graph)) - set (map fst acc)"
    using p assms(2) by simp
  moreover have "p \<notin> set (map fst (dependencies graph)) - set (map fst (AList.update p v acc))"
    unfolding keys_update by simp
  ultimately have "set (map fst (dependencies graph)) - set (map fst (AList.update p v acc))
      \<subset> set (map fst (dependencies graph)) - set (map fst acc)"
    by blast
  then show ?thesis
    unfolding unvisited_def by (intro psubset_card_mono) auto
qed

lemma resolver_dom_total:
  "All (getInverseDependencies_getInverseDependencies_loop_dom ::
     string \<times> 'a Graph \<times> string list js_object
       + string \<times> string list \<times> 'a Graph \<times> string list js_object \<Rightarrow> bool)"
proof (rule "getInverseDependencies_getInverseDependencies_loop.termination"
    [where R = "inv_image (less_than <*lex*> less_than) resolver_measure"])
  show "wf (inv_image (less_than <*lex*> less_than)
    (resolver_measure :: string \<times> 'a Graph \<times> string list js_object
       + string \<times> string list \<times> 'a Graph \<times> string list js_object \<Rightarrow> nat \<times> nat))"
    by (intro wf_inv_image wf_lex_prod wf_less_than)
next
  fix p :: string and graph :: "'a Graph" and inverseDeps :: "string list js_object" and m
  assume "\<not> js_in p inverseDeps" "map_of (dependencies graph) p = Some m"
  then show "(Inr (p, inverseDependencies m, graph, AList.update p [] inverseDeps),
               Inl (p, graph, inverseDeps))
      \<in> inv_image (less_than <*lex*> less_than) resolver_measure"
    by (simp add: unvisited_update js_in_def)
next
  fix p :: string and inverseDep rest and graph :: "'a Graph"
    and inverseDeps :: "string list js_object"
  show "(Inl (inverseDep, graph, AList.map_entry p (\<lambda>xs. xs @ [inverseDep]) inverseDeps),
          Inr (p, inverseDep # rest, graph, inverseDeps))
      \<in> inv_image (less_than <*lex*> less_than) resolver_measure"
    by (simp add: unvisited_def keys_map_entry)
next
  fix p :: string and inverseDep rest and graph :: "'a Graph"
    and inverseDeps :: "string list js_object"
  assume "getInverseDependencies_getInverseDependencies_loop_dom
            (Inl (inverseDep, graph, AList.map_entry p (\<lambda>xs. xs @ [inverseDep]) inverseDeps))"
  then have "set (map fst inverseDeps) \<subseteq> set (map fst (getInverseDependencies inverseDep graph
       (AList.map_entry p (\<lambda>xs. xs @ [inverseDep]) inverseDeps)))"
    using getInverseDependencies_keys_mono_partial(1) keys_map_entry by metis
  then have "unvisited graph (getInverseDependencies inverseDep graph
       (AList.map_entry p (\<lambda>xs. xs @ [inverseDep]) inverseDeps)) \<le> unvisited graph inverseDeps"
    by (rule unvisited_mono)
  then show "(Inr (p, rest, graph, getInverseDependencies inverseDep graph
                 (AList.map_entry p (\<lambda>xs. xs @ [inverseDep]) inverseDeps)),
          Inr (p, inverseDep # rest, graph, inverseDeps))
      \<in> inv_image (less_than <*lex*> less_than) resolver_measure"
    by auto
qed

termination getInverseDependencies
  by (rule resolver_dom_total)


declare getInverseDependencies.simps [simp del]

lemma resolver_keys_grow:
  fixes graph :: "'m Graph"
  shows "set (map fst acc) \<subseteq> set (map fst (getInverseDependencies p graph acc))"
  using getInverseDependencies_keys_mono_partial(1) resolver_dom_total by blast

section \<open>The resolver with a log of what it does\<close>

text \<open>
  The same two functions, also writing down each \<^verbatim>\<open>graph.dependencies.get(path)\<close>
  (line 155, \<open>Lookup\<close>) and each \<^verbatim>\<open>inverseDependencies[path] = []\<close> (line 160,
  \<open>Expand\<close>) in the order they happen. The log is not read by the functions;
  \<open>traced_fst\<close> below shows that the accumulator they return is the one of
  \<^const>\<open>getInverseDependencies\<close>.
\<close>

datatype event = Lookup string | Expand string

function getInverseDependencies_traced ::
    "string \<Rightarrow> 'm Graph \<Rightarrow> string list js_object \<times> event list
       \<Rightarrow> string list js_object \<times> event list"
  and getInverseDependencies_loop_traced ::
    "string \<Rightarrow> string list \<Rightarrow> 'm Graph \<Rightarrow> string list js_object \<times> event list
       \<Rightarrow> string list js_object \<times> event list"
where
  "getInverseDependencies_traced p graph (inverseDeps, tr) =
     (if js_in p inverseDeps then (inverseDeps, tr)
      else case map_of (dependencies graph) p of
             None \<Rightarrow> (inverseDeps, tr @ [Lookup p])
           | Some m \<Rightarrow>
               getInverseDependencies_loop_traced p (inverseDependencies m) graph
                 (AList.update p [] inverseDeps, tr @ [Lookup p, Expand p]))"
| "getInverseDependencies_loop_traced p [] graph (inverseDeps, tr) = (inverseDeps, tr)"
| "getInverseDependencies_loop_traced p (inverseDep # rest) graph (inverseDeps, tr) =
     getInverseDependencies_loop_traced p rest graph
       (getInverseDependencies_traced inverseDep graph
          (AList.map_entry p (\<lambda>xs. xs @ [inverseDep]) inverseDeps, tr))"
  by pat_completeness auto

lemma traced_fst_partial:
  "getInverseDependencies_traced_getInverseDependencies_loop_traced_dom (Inl (p, graph, st)) \<Longrightarrow>
     fst (getInverseDependencies_traced p graph st) = getInverseDependencies p graph (fst st)"
  "getInverseDependencies_traced_getInverseDependencies_loop_traced_dom (Inr (q, invs, graph, st)) \<Longrightarrow>
     fst (getInverseDependencies_loop_traced q invs graph st)
       = getInverseDependencies_loop q invs graph (fst st)"
proof (induction p graph st and q invs graph st
    rule: getInverseDependencies_traced_getInverseDependencies_loop_traced.pinduct)
  case (1 p graph inverseDeps tr)
  then show ?case
    by (simp add: getInverseDependencies_traced.psimps getInverseDependencies.simps
        split: option.splits)
next
  case (2 p graph inverseDeps tr)
  then show ?case
    by (simp add: getInverseDependencies_loop_traced.psimps)
next
  case (3 p inverseDep rest graph inverseDeps tr)
  then show ?case
    by (simp add: getInverseDependencies_loop_traced.psimps)
qed

fun traced_measure ::
  "string \<times> 'm Graph \<times> (string list js_object \<times> event list)
     + string \<times> string list \<times> 'm Graph \<times> (string list js_object \<times> event list)
   \<Rightarrow> nat \<times> nat" where
  "traced_measure (Inl (p, graph, st)) = resolver_measure (Inl (p, graph, fst st))"
| "traced_measure (Inr (p, invs, graph, st)) = resolver_measure (Inr (p, invs, graph, fst st))"

termination getInverseDependencies_traced
proof (relation "inv_image (less_than <*lex*> less_than) traced_measure")
  show "wf (inv_image (less_than <*lex*> less_than)
    (traced_measure :: string \<times> 'a Graph \<times> (string list js_object \<times> event list)
     + string \<times> string list \<times> 'a Graph \<times> (string list js_object \<times> event list)
   \<Rightarrow> nat \<times> nat))"
    by (intro wf_inv_image wf_lex_prod wf_less_than)
next
  fix p :: string and graph :: "'a Graph" and inverseDeps :: "string list js_object" and m
    and tr :: "event list"
  assume "\<not> js_in p inverseDeps" "map_of (dependencies graph) p = Some m"
  then show "(Inr (p, inverseDependencies m, graph, AList.update p [] inverseDeps,
                 tr @ [Lookup p, Expand p]),
               Inl (p, graph, inverseDeps, tr))
      \<in> inv_image (less_than <*lex*> less_than) traced_measure"
    by (simp add: unvisited_update js_in_def)
next
  fix p :: string and inverseDep rest and graph :: "'a Graph"
    and inverseDeps :: "string list js_object" and tr :: "event list"
  show "(Inl (inverseDep, graph, AList.map_entry p (\<lambda>xs. xs @ [inverseDep]) inverseDeps, tr),
          Inr (p, inverseDep # rest, graph, inverseDeps, tr))
      \<in> inv_image (less_than <*lex*> less_than) traced_measure"
    by (simp add: unvisited_def keys_map_entry)
next
  fix p :: string and inverseDep rest and graph :: "'a Graph"
    and inverseDeps :: "string list js_object" and tr :: "event list"
  assume "getInverseDependencies_traced_getInverseDependencies_loop_traced_dom
            (Inl (inverseDep, graph, AList.map_entry p (\<lambda>xs. xs @ [inverseDep]) inverseDeps, tr))"
  then have "fst (getInverseDependencies_traced inverseDep graph
       (AList.map_entry p (\<lambda>xs. xs @ [inverseDep]) inverseDeps, tr))
     = getInverseDependencies inverseDep graph
         (AList.map_entry p (\<lambda>xs. xs @ [inverseDep]) inverseDeps)"
    using traced_fst_partial(1) by fastforce
  moreover have "set (map fst inverseDeps) \<subseteq> set (map fst (getInverseDependencies inverseDep graph
       (AList.map_entry p (\<lambda>xs. xs @ [inverseDep]) inverseDeps)))"
    using resolver_keys_grow [of "AList.map_entry p (\<lambda>xs. xs @ [inverseDep]) inverseDeps"]
    by (simp only: keys_map_entry)
  ultimately have "unvisited graph (fst (getInverseDependencies_traced inverseDep graph
       (AList.map_entry p (\<lambda>xs. xs @ [inverseDep]) inverseDeps, tr))) \<le> unvisited graph inverseDeps"
    by (simp add: unvisited_mono)
  then show "(Inr (p, rest, graph, getInverseDependencies_traced inverseDep graph
                 (AList.map_entry p (\<lambda>xs. xs @ [inverseDep]) inverseDeps, tr)),
          Inr (p, inverseDep # rest, graph, inverseDeps, tr))
      \<in> inv_image (less_than <*lex*> less_than) traced_measure"
    by auto
qed

declare getInverseDependencies_traced.simps [simp del]

section \<open>The module update builder and the payload assembler\<close>

text \<open>
  Lines 129 to 134 of \<^verbatim>\<open>_prepareModule\<close>: the object \<^verbatim>\<open>inverseDependenciesById\<close>,
  created without a prototype and filled key by key, in the order of
  \<^verbatim>\<open>Object.keys(inverseDependencies)\<close>. Its keys are the ids the paths translate to,
  listed in the order of their first write; two paths with one id share a property,
  which holds the value written last. The object goes to \<^verbatim>\<open>addParamsToDefineCall\<close>
  as it is.
\<close>

definition inverseDependenciesById ::
    "(string \<Rightarrow> int) \<Rightarrow> string list js_object \<Rightarrow> (int \<times> int list) list" where
  "inverseDependenciesById createId inverseDeps =
     foldl (\<lambda>byId p. case map_of inverseDeps p of
                        None \<Rightarrow> byId
                      | Some deps \<Rightarrow> AList.update (createId p) (map createId deps) byId)
       [] (Object_keys inverseDeps)"

definition prepareModule ::
    "('m, 'u, 'i) Helpers \<Rightarrow> 'm Module_scheme \<Rightarrow> 'm Graph \<Rightarrow> 'u Options \<Rightarrow> string" where
  "prepareModule env m graph options =
     (let code = wrapModule env m
            \<lparr>clientUrl = clientUrl options, createModuleId = createModuleId options,
             projectRoot = projectRoot options, dev = True\<rparr>;
          inverseDeps = getInverseDependencies (Module.path m) graph []
      in addParamsToDefineCall env code
           (inverseDependenciesById (createModuleId options) inverseDeps))"

text \<open>
  Lines 62 to 68: the pathname written into \<^verbatim>\<open>options.clientUrl\<close> for a module, from
  its map info and the project root.
\<close>

definition bundlePathname ::
    "('m, 'u, 'i) Helpers \<Rightarrow> string \<Rightarrow> 'i MapInfo_scheme \<Rightarrow> string" where
  "bundlePathname env root mapInfo =
     path_relative env root
       (path_join env (path_dirname env (path mapInfo))
          (path_basename env (path mapInfo) (path_extname env (path mapInfo)) @ ''.bundle''))"

text \<open>
  \<^verbatim>\<open>generateModules\<close>, lines 32 to 77. The loop carries the three arrays and the
  options object, whose \<^verbatim>\<open>clientUrl.pathname\<close> each eligible module overwrites.
\<close>

fun generateModules_loop ::
    "('m, 'u, 'i) Helpers \<Rightarrow> 'm Module_scheme list \<Rightarrow> 'm Graph
       \<Rightarrow> GeneratedModules \<times> 'u Options \<Rightarrow> GeneratedModules \<times> 'u Options" where
  "generateModules_loop env [] graph (out, options) = (out, options)"
| "generateModules_loop env (m # rest) graph (out, options) =
     (if isJsModule env m then
        let code = prepareModule env m graph options;
            mapInfo = getSourceMapInfo env m False;
            out = out\<lparr>sourceMappingURLs := sourceMappingURLs out @
                    [getInlineSourceMappingURL env (fromRawMappings_toString env [mapInfo] False)]\<rparr>;
            options = options\<lparr>clientUrl := (clientUrl options)
                    \<lparr>pathname := bundlePathname env (projectRoot options) mapInfo\<rparr>\<rparr>;
            out = out\<lparr>sourceURLs := sourceURLs out @ [url_format env (clientUrl options)]\<rparr>;
            out = out\<lparr>modules := modules out @ [(createModuleId options (Module.path m), code)]\<rparr>
        in generateModules_loop env rest graph (out, options)
      else generateModules_loop env rest graph (out, options))"

definition generateModules ::
    "('m, 'u, 'i) Helpers \<Rightarrow> 'm Module_scheme list \<Rightarrow> 'm Graph \<Rightarrow> 'u Options
       \<Rightarrow> GeneratedModules \<times> 'u Options" where
  "generateModules env sourceModules graph options =
     generateModules_loop env sourceModules graph
       (\<lparr>modules = [], sourceMappingURLs = [], sourceURLs = []\<rparr>, options)"

text \<open>
  \<^verbatim>\<open>hmrJSBundle\<close>, lines 79 to 114: the payload, and the three argument objects as
  the call leaves them.
\<close>

definition hmrJSBundle ::
    "('m, 'u, 'i) Helpers \<Rightarrow> ('m, 'u) Arguments \<Rightarrow> HMRPayload \<times> ('m, 'u) Arguments" where
  "hmrJSBundle env args =
     (let (a, options1) =
            generateModules env (map snd (DeltaResult.added (arg_delta args))) (arg_graph args)
              (arg_options args);
          (m, options2) =
            generateModules env (map snd (DeltaResult.modified (arg_delta args))) (arg_graph args)
              options1
      in (\<lparr>added = modules a,
           modified = modules m,
           deleted = map (\<lambda>p. createModuleId options2 p) (DeltaResult.deleted (arg_delta args)),
           addedSourceMappingURLs = sourceMappingURLs a,
           addedSourceURLs = sourceURLs a,
           modifiedSourceMappingURLs = sourceMappingURLs m,
           modifiedSourceURLs = sourceURLs m\<rparr>,
          args\<lparr>arg_options := options2\<rparr>))"

section \<open>Predicates and instances for the statements\<close>

text \<open>
  The log of a resolution expands no path twice, and every path it has expanded is a
  key of the accumulator.
\<close>

definition expansions_once :: "string list js_object \<times> event list \<Rightarrow> bool" where
  "expansions_once st \<longleftrightarrow>
     (\<forall>q. count_list (snd st) (Expand q) \<le> 1
        \<and> (Expand q \<in> set (snd st) \<longrightarrow> q \<in> fst ` set (fst st)))"

text \<open>
  The options object as the module processed right after \<open>prev\<close> finds it: the one of
  the caller when nothing was processed before, and otherwise the same object with the
  pathname of \<open>prev\<close> written into \<^verbatim>\<open>clientUrl\<close>.
\<close>

definition optionsSeenBy ::
    "('m, 'u, 'i) Helpers \<Rightarrow> 'u Options \<Rightarrow> 'm Module_scheme option \<Rightarrow> 'u Options" where
  "optionsSeenBy env opts prev =
     (case prev of
        None \<Rightarrow> opts
      | Some m \<Rightarrow> opts\<lparr>clientUrl := (clientUrl opts)\<lparr>pathname :=
          bundlePathname env (projectRoot opts) (getSourceMapInfo env m False)\<rparr>\<rparr>)"

text \<open>
  Index alignment of one family of arrays with the list \<open>js\<close> of modules they were
  generated from: the three arrays are as long as \<open>js\<close>, and at every index stand the
  id and wrapped code, the inline source map URL and the source URL of the module at
  that index of \<open>js\<close>.
\<close>

definition aligned ::
    "('m, 'u, 'i) Helpers \<Rightarrow> 'm Graph \<Rightarrow> 'u Options \<Rightarrow> 'm Module_scheme option
       \<Rightarrow> 'm Module_scheme list \<Rightarrow> ModuleMap \<Rightarrow> string list \<Rightarrow> string list \<Rightarrow> bool" where
  "aligned env graph opts prev js mods smus sus \<longleftrightarrow>
     length mods = length js \<and> length smus = length js \<and> length sus = length js
     \<and> (\<forall>i < length js.
          mods ! i = (createModuleId opts (Module.path (js ! i)),
                      prepareModule env (js ! i) graph
                        (optionsSeenBy env opts (if i = 0 then prev else Some (js ! (i - 1)))))
        \<and> smus ! i = getInlineSourceMappingURL env
                       (fromRawMappings_toString env [getSourceMapInfo env (js ! i) False] False)
        \<and> sus ! i = url_format env ((clientUrl opts)\<lparr>pathname :=
                       bundlePathname env (projectRoot opts)
                         (getSourceMapInfo env (js ! i) False)\<rparr>))"

text \<open>
  An instance of the helpers and of the three arguments, small enough to run: one added
  source module, one added asset, one modified source module, two deleted paths.
\<close>

definition demoHelpers :: "(unit, unit, unit) Helpers" where
  "demoHelpers =
     \<lparr>isJsModule = (\<lambda>m. take 3 (rev (Module.path m)) = ''sj.''),
      wrapModule = (\<lambda>m opts. ''__d(function(){},'' @ Module.path m @ '')''),
      addParamsToDefineCall = (\<lambda>code byId. code @ concat (map (\<lambda>kv. '',inv'') byId)),
      getSourceMapInfo = (\<lambda>m excludeSource. \<lparr>path = Module.path m\<rparr>),
      fromRawMappings_toString = (\<lambda>ms excludeSource. concat (map path ms)),
      getInlineSourceMappingURL = (\<lambda>s. ''data:'' @ s),
      path_relative = (\<lambda>root to. drop (length root) to),
      path_join = (\<lambda>a b. a @ b),
      path_dirname = (\<lambda>p. ''/''),
      path_basename = (\<lambda>p ext. take (length p - length ext - 1) (drop 1 p)),
      path_extname = (\<lambda>p. drop (length p - 3) p),
      url_format = (\<lambda>u. ''http://localhost:8081/'' @ pathname u)\<rparr>"

definition demoArgs :: "(unit, unit) Arguments" where
  "demoArgs =
     \<lparr>arg_delta =
        \<lparr>DeltaResult.added =
           [(''/a.js'', \<lparr>Module.path = ''/a.js'', inverseDependencies = [''/b.js'']\<rparr>),
            (''/x.png'', \<lparr>Module.path = ''/x.png'', inverseDependencies = [''/a.js'']\<rparr>)],
         modified =
           [(''/b.js'', \<lparr>Module.path = ''/b.js'', inverseDependencies = []\<rparr>)],
         deleted = [''/a.js'', ''/b.js'']\<rparr>,
      arg_graph =
        \<lparr>dependencies =
           [(''/a.js'', \<lparr>Module.path = ''/a.js'', inverseDependencies = [''/b.js'']\<rparr>),
            (''/b.js'', \<lparr>Module.path = ''/b.js'', inverseDependencies = []\<rparr>),
            (''/x.png'', \<lparr>Module.path = ''/x.png'', inverseDependencies = [''/a.js'']\<rparr>)]\<rparr>,
      arg_options =
        \<lparr>clientUrl = \<lparr>pathname = ''index.bundle''\<rparr>,
         createModuleId = (\<lambda>p. if p = ''/a.js'' then 1 else if p = ''/b.js'' then 2 else 3),
         projectRoot = ''/''\<rparr>\<rparr>"

section \<open>What the resolver returns\<close>

text \<open>
  The entries of the accumulator, read through \<^const>\<open>map_of\<close>. A call leaves every
  entry it finds as it is, and every key it adds is a path of the graph, stored with
  that module's whole \<^verbatim>\<open>inverseDependencies\<close>. The loop for \<open>q\<close> appends the
  paths it walks to the array under \<open>q\<close> and touches no other old entry.
\<close>

lemma resolver_entries:
  fixes graph :: "'m Graph"
  shows "(\<forall>k. (k \<in> fst ` set acc \<longrightarrow> map_of (getInverseDependencies p graph acc) k = map_of acc k)
       \<and> (k \<notin> fst ` set acc \<longrightarrow> k \<in> fst ` set (getInverseDependencies p graph acc) \<longrightarrow>
            (\<exists>m. map_of (dependencies graph) k = Some m
               \<and> map_of (getInverseDependencies p graph acc) k = Some (inverseDependencies m))))"
  and "q \<in> fst ` set acc \<longrightarrow>
     (\<forall>k. (k \<in> fst ` set acc \<longrightarrow> k \<noteq> q \<longrightarrow> map_of (getInverseDependencies_loop q invs graph acc) k = map_of acc k)
       \<and> (k = q \<longrightarrow> map_of (getInverseDependencies_loop q invs graph acc) k = Some (the (map_of acc q) @ invs))
       \<and> (k \<notin> fst ` set acc \<longrightarrow> k \<in> fst ` set (getInverseDependencies_loop q invs graph acc) \<longrightarrow>
            (\<exists>m. map_of (dependencies graph) k = Some m
               \<and> map_of (getInverseDependencies_loop q invs graph acc) k = Some (inverseDependencies m))))"
proof (induction p graph acc and q invs graph acc
    rule: getInverseDependencies_getInverseDependencies_loop.induct)
  case (1 p graph inverseDeps)
  show ?case
  proof (cases "js_in p inverseDeps")
    case True
    then show ?thesis by (simp add: getInverseDependencies.simps)
  next
    case False
    then have pk: "p \<notin> fst ` set inverseDeps" by (simp add: js_in_def)
    show ?thesis
    proof (cases "map_of (dependencies graph) p")
      case None
      with False show ?thesis by (simp add: getInverseDependencies.simps)
    next
      case (Some m)
      let ?acc1 = "AList.update p [] inverseDeps"
      let ?r = "getInverseDependencies_loop p (inverseDependencies m) graph ?acc1"
      have r: "getInverseDependencies p graph inverseDeps = ?r"
        using False Some by (simp add: getInverseDependencies.simps)
      have k1: "fst ` set ?acc1 = insert p (fst ` set inverseDeps)"
        by (simp add: dom_update)
      have IH: "\<forall>k. (k \<in> fst ` set ?acc1 \<longrightarrow> k \<noteq> p \<longrightarrow> map_of ?r k = map_of ?acc1 k)
         \<and> (k = p \<longrightarrow> map_of ?r k = Some (the (map_of ?acc1 p) @ inverseDependencies m))
         \<and> (k \<notin> fst ` set ?acc1 \<longrightarrow> k \<in> fst ` set ?r \<longrightarrow>
            (\<exists>m. map_of (dependencies graph) k = Some m \<and> map_of ?r k = Some (inverseDependencies m)))"
        using 1 [OF False Some] k1 by blast
      have m1: "map_of ?acc1 = (map_of inverseDeps)(p \<mapsto> [])"
        by (rule AList.update_conv')
      show ?thesis
        unfolding r
      proof (intro allI conjI impI)
        fix k assume "k \<in> fst ` set inverseDeps"
        then have "k \<in> fst ` set ?acc1" "k \<noteq> p" using k1 pk by auto
        then show "map_of ?r k = map_of inverseDeps k" using IH m1 by simp
      next
        fix k assume a: "k \<notin> fst ` set inverseDeps" "k \<in> fst ` set ?r"
        show "\<exists>m. map_of (dependencies graph) k = Some m \<and> map_of ?r k = Some (inverseDependencies m)"
        proof (cases "k = p")
          case True
          then show ?thesis using IH m1 Some by simp
        next
          case False
          then have "k \<notin> fst ` set ?acc1" using a(1) k1 by simp
          then show ?thesis using IH a(2) by blast
        qed
      qed
    qed
  qed
next
  case (2 p graph inverseDeps)
  show ?case
  proof (intro impI)
    assume "p \<in> fst ` set inverseDeps"
    then obtain v where "map_of inverseDeps p = Some v"
      by (metis map_of_eq_None_iff not_Some_eq)
    then show "\<forall>k. (k \<in> fst ` set inverseDeps \<longrightarrow> k \<noteq> p \<longrightarrow>
          map_of (getInverseDependencies_loop p [] graph inverseDeps) k = map_of inverseDeps k)
       \<and> (k = p \<longrightarrow> map_of (getInverseDependencies_loop p [] graph inverseDeps) k
             = Some (the (map_of inverseDeps p) @ []))
       \<and> (k \<notin> fst ` set inverseDeps \<longrightarrow>
            k \<in> fst ` set (getInverseDependencies_loop p [] graph inverseDeps) \<longrightarrow>
            (\<exists>m. map_of (dependencies graph) k = Some m
               \<and> map_of (getInverseDependencies_loop p [] graph inverseDeps) k
                   = Some (inverseDependencies m)))"
      by simp
  qed
next
  case (3 q inverseDep rest graph inverseDeps)
  let ?acc1 = "AList.map_entry q (\<lambda>xs. xs @ [inverseDep]) inverseDeps"
  let ?acc2 = "getInverseDependencies inverseDep graph ?acc1"
  let ?r = "getInverseDependencies_loop q rest graph ?acc2"
  show ?case
  proof (intro impI)
    assume q: "q \<in> fst ` set inverseDeps"
    have k1: "fst ` set ?acc1 = fst ` set inverseDeps" by (rule dom_map_entry)
    obtain v where v: "map_of inverseDeps q = Some v"
      using q by (metis map_of_eq_None_iff not_Some_eq)
    have m1: "map_of ?acc1 = (map_of inverseDeps)(q \<mapsto> v @ [inverseDep])"
      by (simp add: map_of_map_entry v)
    have IH1: "\<And>k. k \<in> fst ` set ?acc1 \<Longrightarrow> map_of ?acc2 k = map_of ?acc1 k"
      and IH1': "\<And>k. k \<notin> fst ` set ?acc1 \<Longrightarrow> k \<in> fst ` set ?acc2 \<Longrightarrow>
            (\<exists>m. map_of (dependencies graph) k = Some m \<and> map_of ?acc2 k = Some (inverseDependencies m))"
      using 3(1) by blast+
    have q2: "q \<in> fst ` set ?acc2"
      using q k1 IH1 [of q] m1 by (metis fun_upd_same map_of_eq_None_iff option.distinct(1))
    have IH2: "\<And>k. k \<in> fst ` set ?acc2 \<Longrightarrow> k \<noteq> q \<Longrightarrow> map_of ?r k = map_of ?acc2 k"
      and IH2': "map_of ?r q = Some (the (map_of ?acc2 q) @ rest)"
      and IH2'': "\<And>k. k \<notin> fst ` set ?acc2 \<Longrightarrow> k \<in> fst ` set ?r \<Longrightarrow>
            (\<exists>m. map_of (dependencies graph) k = Some m \<and> map_of ?r k = Some (inverseDependencies m))"
      using 3(2) q2 by blast+
    have sub: "fst ` set inverseDeps \<subseteq> fst ` set ?acc2"
    proof
      fix k assume "k \<in> fst ` set inverseDeps"
      then have "map_of ?acc2 k = map_of ?acc1 k" "map_of ?acc1 k \<noteq> None"
        using IH1 [of k] k1 by (simp_all add: map_of_eq_None_iff)
      then show "k \<in> fst ` set ?acc2"
        by (metis map_of_eq_None_iff)
    qed
    show "\<forall>k. (k \<in> fst ` set inverseDeps \<longrightarrow> k \<noteq> q \<longrightarrow>
             map_of (getInverseDependencies_loop q (inverseDep # rest) graph inverseDeps) k = map_of inverseDeps k)
       \<and> (k = q \<longrightarrow> map_of (getInverseDependencies_loop q (inverseDep # rest) graph inverseDeps) k
              = Some (the (map_of inverseDeps q) @ inverseDep # rest))
       \<and> (k \<notin> fst ` set inverseDeps \<longrightarrow>
            k \<in> fst ` set (getInverseDependencies_loop q (inverseDep # rest) graph inverseDeps) \<longrightarrow>
            (\<exists>m. map_of (dependencies graph) k = Some m
               \<and> map_of (getInverseDependencies_loop q (inverseDep # rest) graph inverseDeps) k
                   = Some (inverseDependencies m)))"
      unfolding getInverseDependencies_loop.simps
    proof (intro allI conjI impI)
      fix k assume a: "k \<in> fst ` set inverseDeps" "k \<noteq> q"
      then have "map_of ?r k = map_of ?acc2 k" using IH2 sub by blast
      also have "\<dots> = map_of ?acc1 k" using IH1 a(1) k1 by simp
      also have "\<dots> = map_of inverseDeps k" using m1 a(2) by simp
      finally show "map_of ?r k = map_of inverseDeps k" .
    next
      fix k assume "k = q"
      moreover have "map_of ?acc2 q = Some (v @ [inverseDep])"
        using IH1 [of q] q k1 m1 by simp
      ultimately show "map_of ?r k = Some (the (map_of inverseDeps q) @ inverseDep # rest)"
        using IH2' v by simp
    next
      fix k assume a: "k \<notin> fst ` set inverseDeps" "k \<in> fst ` set ?r"
      show "\<exists>m. map_of (dependencies graph) k = Some m \<and> map_of ?r k = Some (inverseDependencies m)"
      proof (cases "k \<in> fst ` set ?acc2")
        case True
        then obtain m where "map_of (dependencies graph) k = Some m"
            "map_of ?acc2 k = Some (inverseDependencies m)"
          using IH1' [of k] a(1) k1 by auto
        moreover have "k \<noteq> q" using a(1) q by blast
        ultimately show ?thesis using IH2 [OF True] by simp
      next
        case False
        then show ?thesis using IH2'' a(2) by blast
      qed
    qed
  qed
qed

lemma resolver_keys_mono:
  fixes graph :: "'m Graph"
  shows "fst ` set acc \<subseteq> fst ` set (getInverseDependencies p graph acc)"
proof
  fix k assume k: "k \<in> fst ` set acc"
  then have "map_of (getInverseDependencies p graph acc) k = map_of acc k"
    using resolver_entries(1) [of acc p graph] by blast
  then show "k \<in> fst ` set (getInverseDependencies p graph acc)"
    using k by (metis map_of_eq_None_iff)
qed

lemma resolver_distinct:
  fixes graph :: "'m Graph"
  shows "distinct (map fst acc) \<Longrightarrow> distinct (map fst (getInverseDependencies p graph acc))"
  and "distinct (map fst acc) \<Longrightarrow>
         distinct (map fst (getInverseDependencies_loop q invs graph acc))"
proof (induction p graph acc and q invs graph acc
    rule: getInverseDependencies_getInverseDependencies_loop.induct)
  case (1 p graph inverseDeps)
  then show ?case
    by (auto simp: getInverseDependencies.simps distinct_update split: option.splits)
next
  case (2 p graph inverseDeps)
  then show ?case by simp
next
  case (3 p inverseDep rest graph inverseDeps)
  then show ?case by (simp add: keys_map_entry)
qed

lemma traced_fst:
  fixes graph :: "'m Graph"
  shows "fst (getInverseDependencies_traced p graph st) = getInverseDependencies p graph (fst st)"
  and "fst (getInverseDependencies_loop_traced q invs graph st)
       = getInverseDependencies_loop q invs graph (fst st)"
proof (induction p graph st and q invs graph st
    rule: getInverseDependencies_traced_getInverseDependencies_loop_traced.induct)
  case (1 p graph inverseDeps tr)
  then show ?case
    by (simp add: getInverseDependencies_traced.simps getInverseDependencies.simps
        split: option.splits)
next
  case (2 p graph inverseDeps tr)
  then show ?case by simp
next
  case (3 p inverseDep rest graph inverseDeps tr)
  then show ?case by simp
qed

lemma traced_expansions_once:
  fixes graph :: "'m Graph"
  shows "expansions_once st \<Longrightarrow> expansions_once (getInverseDependencies_traced p graph st)"
  and "expansions_once st \<Longrightarrow> expansions_once (getInverseDependencies_loop_traced q invs graph st)"
proof (induction p graph st and q invs graph st
    rule: getInverseDependencies_traced_getInverseDependencies_loop_traced.induct)
  case (1 p graph inverseDeps tr)
  show ?case
  proof (cases "js_in p inverseDeps")
    case True
    with 1(2) show ?thesis by (simp add: getInverseDependencies_traced.simps)
  next
    case False
    then have pk: "p \<notin> fst ` set inverseDeps" by (simp add: js_in_def)
    show ?thesis
    proof (cases "map_of (dependencies graph) p")
      case None
      with False 1(2) show ?thesis
        by (simp add: getInverseDependencies_traced.simps expansions_once_def)
    next
      case (Some m)
      have "Expand p \<notin> set tr" using 1(2) pk by (auto simp: expansions_once_def)
      then have "count_list tr (Expand p) = 0" by (simp add: count_list_0_iff)
      then have "expansions_once (AList.update p [] inverseDeps, tr @ [Lookup p, Expand p])"
        using 1(2) by (auto simp: expansions_once_def dom_update)
      then show ?thesis
        using 1(1) [OF False Some] False Some
        by (simp add: getInverseDependencies_traced.simps)
    qed
  qed
next
  case (2 p graph inverseDeps tr)
  then show ?case by simp
next
  case (3 p inverseDep rest graph inverseDeps tr)
  have "expansions_once (AList.map_entry p (\<lambda>xs. xs @ [inverseDep]) inverseDeps, tr)"
    using 3(3) by (simp add: expansions_once_def dom_map_entry)
  then show ?case using 3(1,2) by simp
qed

section \<open>What the assembler returns\<close>

lemma generateModules_loop_skips:
  "generateModules_loop env ms graph st
     = generateModules_loop env (filter (isJsModule env) ms) graph st"
proof (induction ms arbitrary: st)
  case Nil
  show ?case by simp
next
  case (Cons m ms)
  obtain out opts where st: "st = (out, opts)" by (cases st)
  show ?case
    unfolding st using Cons.IH by (simp add: Let_def)
qed

lemma generateModules_loop_options:
  "snd (generateModules_loop env ms graph (out, opts))
     = opts\<lparr>clientUrl := (clientUrl opts)\<lparr>pathname :=
         (if filter (isJsModule env) ms = [] then pathname (clientUrl opts)
          else bundlePathname env (projectRoot opts)
                 (getSourceMapInfo env (last (filter (isJsModule env) ms)) False))\<rparr>\<rparr>"
proof (induction ms arbitrary: out opts)
  case Nil
  show ?case by simp
next
  case (Cons m ms)
  show ?case
    by (simp add: Let_def Cons.IH)
qed

lemma generateModules_options:
  "snd (generateModules env ms graph opts)
     = opts\<lparr>clientUrl := (clientUrl opts)\<lparr>pathname :=
         (if filter (isJsModule env) ms = [] then pathname (clientUrl opts)
          else bundlePathname env (projectRoot opts)
                 (getSourceMapInfo env (last (filter (isJsModule env) ms)) False))\<rparr>\<rparr>"
  unfolding generateModules_def by (rule generateModules_loop_options)

lemma generateModules_createModuleId:
  "createModuleId (snd (generateModules env ms graph opts)) = createModuleId opts"
  "projectRoot (snd (generateModules env ms graph opts)) = projectRoot opts"
  by (simp_all add: generateModules_options)

lemma hmrJSBundle_snd:
  "snd (hmrJSBundle env args)
     = args\<lparr>arg_options := (arg_options args)\<lparr>clientUrl := (clientUrl (arg_options args))\<lparr>pathname :=
           (let jsAdded = filter (isJsModule env) (map snd (DeltaResult.added (arg_delta args)));
                jsModified = filter (isJsModule env) (map snd (DeltaResult.modified (arg_delta args)))
            in if jsModified \<noteq> [] then
                 bundlePathname env (projectRoot (arg_options args))
                   (getSourceMapInfo env (last jsModified) False)
               else if jsAdded \<noteq> [] then
                 bundlePathname env (projectRoot (arg_options args))
                   (getSourceMapInfo env (last jsAdded) False)
               else pathname (clientUrl (arg_options args)))\<rparr>\<rparr>\<rparr>"
  by (simp add: hmrJSBundle_def case_prod_beta generateModules_options Let_def)

lemma optionsSeenBy_fields:
  "createModuleId (optionsSeenBy env opts prev) = createModuleId opts"
  "projectRoot (optionsSeenBy env opts prev) = projectRoot opts"
  "(clientUrl (optionsSeenBy env opts prev))\<lparr>pathname := x\<rparr> = (clientUrl opts)\<lparr>pathname := x\<rparr>"
  "(optionsSeenBy env opts prev)\<lparr>clientUrl := (clientUrl opts)\<lparr>pathname := x\<rparr>\<rparr>
     = opts\<lparr>clientUrl := (clientUrl opts)\<lparr>pathname := x\<rparr>\<rparr>"
  by (simp_all add: optionsSeenBy_def split: option.splits)

lemma aligned_Cons:
  assumes "aligned env graph opts (Some m) js M S U"
  shows "aligned env graph opts prev (m # js)
     ((createModuleId opts (Module.path m), prepareModule env m graph (optionsSeenBy env opts prev)) # M)
     (getInlineSourceMappingURL env
        (fromRawMappings_toString env [getSourceMapInfo env m False] False) # S)
     (url_format env ((clientUrl opts)\<lparr>pathname :=
        bundlePathname env (projectRoot opts) (getSourceMapInfo env m False)\<rparr>) # U)"
  unfolding aligned_def
proof (intro conjI allI impI)
  fix i assume "i < length (m # js)"
  then consider "i = 0" | j where "i = Suc j" "j < length js" by (cases i) auto
  then show "((createModuleId opts (Module.path m), prepareModule env m graph (optionsSeenBy env opts prev)) # M) ! i
      = (createModuleId opts (Module.path ((m # js) ! i)),
         prepareModule env ((m # js) ! i) graph
           (optionsSeenBy env opts (if i = 0 then prev else Some ((m # js) ! (i - 1)))))"
  proof cases
    case 1 then show ?thesis by simp
  next
    case 2
    then show ?thesis using assms unfolding aligned_def by (cases j) auto
  qed
next
  fix i assume "i < length (m # js)"
  then show "(getInlineSourceMappingURL env
        (fromRawMappings_toString env [getSourceMapInfo env m False] False) # S) ! i
     = getInlineSourceMappingURL env
        (fromRawMappings_toString env [getSourceMapInfo env ((m # js) ! i) False] False)"
    using assms unfolding aligned_def by (cases i) auto
next
  fix i assume "i < length (m # js)"
  then show "(url_format env ((clientUrl opts)\<lparr>pathname :=
        bundlePathname env (projectRoot opts) (getSourceMapInfo env m False)\<rparr>) # U) ! i
     = url_format env ((clientUrl opts)\<lparr>pathname :=
        bundlePathname env (projectRoot opts) (getSourceMapInfo env ((m # js) ! i) False)\<rparr>)"
    using assms unfolding aligned_def by (cases i) auto
qed (use assms in \<open>simp_all add: aligned_def\<close>)

lemma generateModules_loop_aligned:
  assumes "list_all (isJsModule env) js"
  shows "\<exists>M S U.
     fst (generateModules_loop env js graph (out, optionsSeenBy env opts prev))
       = out\<lparr>modules := modules out @ M, sourceMappingURLs := sourceMappingURLs out @ S,
              sourceURLs := sourceURLs out @ U\<rparr>
     \<and> aligned env graph opts prev js M S U"
  using assms
proof (induction js arbitrary: out prev)
  case Nil
  show ?case by (simp add: aligned_def)
next
  case (Cons m js)
  let ?o = "optionsSeenBy env opts prev"
  let ?mi = "getSourceMapInfo env m False"
  let ?e = "(createModuleId opts (Module.path m), prepareModule env m graph ?o)"
  let ?s = "getInlineSourceMappingURL env (fromRawMappings_toString env [?mi] False)"
  let ?u = "url_format env ((clientUrl opts)\<lparr>pathname := bundlePathname env (projectRoot opts) ?mi\<rparr>)"
  let ?out1 = "out\<lparr>sourceMappingURLs := sourceMappingURLs out @ [?s],
                  sourceURLs := sourceURLs out @ [?u], modules := modules out @ [?e]\<rparr>"
  have js: "list_all (isJsModule env) js" and m: "isJsModule env m"
    using Cons.prems by simp_all
  have o1: "?o\<lparr>clientUrl := (clientUrl ?o)\<lparr>pathname := bundlePathname env (projectRoot ?o) ?mi\<rparr>\<rparr>
      = optionsSeenBy env opts (Some m)"
    by (simp add: optionsSeenBy_def split: option.splits)
  have step: "generateModules_loop env (m # js) graph (out, ?o)
      = generateModules_loop env js graph (?out1, optionsSeenBy env opts (Some m))"
    using m o1 by (simp add: Let_def optionsSeenBy_fields)
  obtain M S U where r: "fst (generateModules_loop env js graph (?out1, optionsSeenBy env opts (Some m)))
       = ?out1\<lparr>modules := modules ?out1 @ M, sourceMappingURLs := sourceMappingURLs ?out1 @ S,
              sourceURLs := sourceURLs ?out1 @ U\<rparr>"
     and a: "aligned env graph opts (Some m) js M S U"
    using Cons.IH [OF js, of ?out1 "Some m"] by blast
  have "fst (generateModules_loop env (m # js) graph (out, ?o))
       = out\<lparr>modules := modules out @ (?e # M), sourceMappingURLs := sourceMappingURLs out @ (?s # S),
              sourceURLs := sourceURLs out @ (?u # U)\<rparr>"
    unfolding step r by simp
  moreover have "aligned env graph opts prev (m # js) (?e # M) (?s # S) (?u # U)"
    using a by (rule aligned_Cons)
  ultimately show ?case by blast
qed

lemma generateModules_aligned:
  "aligned env graph opts prev (filter (isJsModule env) ms)
     (modules (fst (generateModules env ms graph (optionsSeenBy env opts prev))))
     (sourceMappingURLs (fst (generateModules env ms graph (optionsSeenBy env opts prev))))
     (sourceURLs (fst (generateModules env ms graph (optionsSeenBy env opts prev))))"
proof -
  have "list_all (isJsModule env) (filter (isJsModule env) ms)"
    by (simp add: list_all_iff)
  then obtain M S U where
    "fst (generateModules_loop env (filter (isJsModule env) ms) graph
        (\<lparr>modules = [], sourceMappingURLs = [], sourceURLs = []\<rparr>, optionsSeenBy env opts prev))
       = \<lparr>modules = [], sourceMappingURLs = [], sourceURLs = []\<rparr>
           \<lparr>modules := [] @ M, sourceMappingURLs := [] @ S, sourceURLs := [] @ U\<rparr>"
    and a: "aligned env graph opts prev (filter (isJsModule env) ms) M S U"
    using generateModules_loop_aligned
      [of env "filter (isJsModule env) ms" graph
          "\<lparr>modules = [], sourceMappingURLs = [], sourceURLs = []\<rparr>" opts prev]
    by auto
  then have "fst (generateModules env ms graph (optionsSeenBy env opts prev))
      = \<lparr>modules = M, sourceMappingURLs = S, sourceURLs = U\<rparr>"
    unfolding generateModules_def
    using generateModules_loop_skips [of env ms graph] by simp
  then show ?thesis using a by simp
qed

text \<open>
  The pathname that \<^verbatim>\<open>clientUrl\<close> holds when a call starts is overwritten before
  \<^verbatim>\<open>url.format\<close> reads it; \<^verbatim>\<open>wrapModule\<close> is the only other reader of the options.
\<close>

lemma prepareModule_pathname:
  assumes "\<And>m w x. wrapModule env m (w\<lparr>clientUrl := (clientUrl w)\<lparr>pathname := x\<rparr>\<rparr>)
             = wrapModule env m w"
  shows "prepareModule env m graph (opts\<lparr>clientUrl := (clientUrl opts)\<lparr>pathname := x\<rparr>\<rparr>)
       = prepareModule env m graph opts"
proof -
  let ?w = "\<lparr>clientUrl = clientUrl opts, createModuleId = createModuleId opts,
             projectRoot = projectRoot opts, dev = True\<rparr>"
  have "wrapModule env m (?w\<lparr>clientUrl := (clientUrl ?w)\<lparr>pathname := x\<rparr>\<rparr>) = wrapModule env m ?w"
    by (rule assms)
  then show ?thesis
    by (simp add: prepareModule_def)
qed

lemma generateModules_loop_pathname:
  assumes "\<And>m w x. wrapModule env m (w\<lparr>clientUrl := (clientUrl w)\<lparr>pathname := x\<rparr>\<rparr>)
             = wrapModule env m w"
  shows "fst (generateModules_loop env ms graph
            (out, opts\<lparr>clientUrl := (clientUrl opts)\<lparr>pathname := x\<rparr>\<rparr>))
       = fst (generateModules_loop env ms graph (out, opts))"
proof (induction ms arbitrary: out opts x)
  case Nil
  show ?case by simp
next
  case (Cons m ms)
  show ?case
  proof (cases "isJsModule env m")
    case True
    then show ?thesis
      by (simp add: Let_def prepareModule_pathname [OF assms])
  next
    case False
    then show ?thesis using Cons.IH by simp
  qed
qed

lemma generateModules_pathname:
  assumes "\<And>m w x. wrapModule env m (w\<lparr>clientUrl := (clientUrl w)\<lparr>pathname := x\<rparr>\<rparr>)
             = wrapModule env m w"
  shows "fst (generateModules env ms graph (opts\<lparr>clientUrl := (clientUrl opts)\<lparr>pathname := x\<rparr>\<rparr>))
       = fst (generateModules env ms graph opts)"
  unfolding generateModules_def by (rule generateModules_loop_pathname [OF assms])

lemma hmrJSBundle_pathname:
  assumes "\<And>m w x. wrapModule env m (w\<lparr>clientUrl := (clientUrl w)\<lparr>pathname := x\<rparr>\<rparr>)
             = wrapModule env m w"
  shows "fst (hmrJSBundle env (args\<lparr>arg_options :=
            (arg_options args)\<lparr>clientUrl := (clientUrl (arg_options args))\<lparr>pathname := x\<rparr>\<rparr>\<rparr>))
       = fst (hmrJSBundle env args)"
proof -
  let ?o = "arg_options args"
  let ?ox = "?o\<lparr>clientUrl := (clientUrl ?o)\<lparr>pathname := x\<rparr>\<rparr>"
  let ?A = "map snd (DeltaResult.added (arg_delta args))"
  let ?M = "map snd (DeltaResult.modified (arg_delta args))"
  let ?g = "arg_graph args"
  have a: "fst (generateModules env ?A ?g ?ox) = fst (generateModules env ?A ?g ?o)"
    by (rule generateModules_pathname [OF assms])
  obtain y where y: "snd (generateModules env ?A ?g ?ox)
      = (snd (generateModules env ?A ?g ?o))
          \<lparr>clientUrl := (clientUrl (snd (generateModules env ?A ?g ?o)))\<lparr>pathname := y\<rparr>\<rparr>"
    by (simp add: generateModules_options)
  have m: "fst (generateModules env ?M ?g (snd (generateModules env ?A ?g ?ox)))
      = fst (generateModules env ?M ?g (snd (generateModules env ?A ?g ?o)))"
    unfolding y by (rule generateModules_pathname [OF assms])
  show ?thesis
    by (simp add: hmrJSBundle_def case_prod_beta a m generateModules_createModuleId)
qed

lemma Object_keys_single: "Object_keys [(p, v)] = [p]"
  by (simp add: Object_keys_def)

section \<open>Claims about the resolver\<close>

text \<open>
  C8. A path with no module in \<^verbatim>\<open>graph.dependencies\<close> is a boundary of the traversal
  and not an error: the call on it returns the accumulator it was given, whether the
  path is the starting path or was reached through an inverse dependency (the loop
  pushes it onto the array of \<open>q\<close> and goes on with the next one), and no traversal,
  from any starting path \<open>q\<close>, ever adds it as a key.
\<close>

theorem missing_module_is_boundary:
  fixes graph :: "'m Graph"
  assumes "map_of (dependencies graph) p = None"
  shows "getInverseDependencies p graph acc = acc
       \<and> getInverseDependencies_loop q (p # rest) graph acc
           = getInverseDependencies_loop q rest graph (AList.map_entry q (\<lambda>xs. xs @ [p]) acc)
       \<and> (p \<notin> fst ` set acc \<longrightarrow> p \<notin> fst ` set (getInverseDependencies q graph acc))"
proof (intro conjI)
  show r: "getInverseDependencies p graph acc = acc" for acc
    using assms by (simp add: getInverseDependencies.simps)
  show "getInverseDependencies_loop q (p # rest) graph acc
           = getInverseDependencies_loop q rest graph (AList.map_entry q (\<lambda>xs. xs @ [p]) acc)"
    by (simp add: r)
  show "p \<notin> fst ` set acc \<longrightarrow> p \<notin> fst ` set (getInverseDependencies q graph acc)"
  proof (intro impI notI)
    assume "p \<notin> fst ` set acc" "p \<in> fst ` set (getInverseDependencies q graph acc)"
    then have "\<exists>m. map_of (dependencies graph) p = Some m"
      using resolver_entries(1) [of acc q graph] by blast
    then show False using assms by simp
  qed
qed

theorem missing_module_is_boundary_witness:
  "map_of (dependencies \<lparr>dependencies =
       [(''/a.js'', \<lparr>Module.path = ''/a.js'', inverseDependencies = [''/gone.js'']\<rparr>)]\<rparr>) ''/gone.js''
     = None
   \<and> getInverseDependencies ''/gone.js'' \<lparr>dependencies =
       [(''/a.js'', \<lparr>Module.path = ''/a.js'', inverseDependencies = [''/gone.js'']\<rparr>)]\<rparr> [] = []
   \<and> getInverseDependencies ''/a.js'' \<lparr>dependencies =
       [(''/a.js'', \<lparr>Module.path = ''/a.js'', inverseDependencies = [''/gone.js'']\<rparr>)]\<rparr> []
     = [(''/a.js'', [''/gone.js''])]
   \<and> ''/gone.js'' \<notin> fst ` set (getInverseDependencies ''/a.js'' \<lparr>dependencies =
       [(''/a.js'', \<lparr>Module.path = ''/a.js'', inverseDependencies = [''/gone.js'']\<rparr>)]\<rparr> [])"
proof -
  let ?g = "\<lparr>dependencies =
       [(''/a.js'', \<lparr>Module.path = ''/a.js'', inverseDependencies = [''/gone.js'']\<rparr>)]\<rparr>"
  have n: "map_of (dependencies ?g) ''/gone.js'' = None"
    by simp
  have a: "getInverseDependencies ''/a.js'' ?g []
      = getInverseDependencies_loop ''/a.js'' [''/gone.js''] ?g [(''/a.js'', [])]"
    by (simp add: getInverseDependencies.simps js_in_def objectPrototypeKeys_def)
  show ?thesis
    using n missing_module_is_boundary [OF n, of "[]" "''/a.js''" "[]"]
      missing_module_is_boundary [OF n, of "[(''/a.js'', [])]" "''/a.js''" "[]"]
    unfolding a by simp
qed

text \<open>
  C10. Resolving from an empty accumulator, as \<^verbatim>\<open>_prepareModule\<close> does: the keys of
  the result are distinct paths that have a module in the graph, and the array under a
  key is that module's \<^verbatim>\<open>inverseDependencies\<close>, whole and in order. Nothing is
  filtered out of the array, so an element of it may be a path the graph has no module
  for, which then is no key of the result: the last conjunct is such a result.
\<close>

theorem resolver_entries_mirror_graph:
  fixes graph :: "'m Graph"
  shows "distinct (map fst (getInverseDependencies p graph []))
    \<and> (\<forall>(k, v) \<in> set (getInverseDependencies p graph []).
          \<exists>m. map_of (dependencies graph) k = Some m \<and> v = inverseDependencies m)
    \<and> (\<exists>(g :: unit Graph) q k v x.
          map_of (dependencies g) x = None
        \<and> (k, v) \<in> set (getInverseDependencies q g []) \<and> x \<in> set v
        \<and> x \<notin> fst ` set (getInverseDependencies q g []))"
proof (intro conjI)
  show d: "distinct (map fst (getInverseDependencies p graph []))"
    by (rule resolver_distinct(1)) simp
  show "\<forall>(k, v) \<in> set (getInverseDependencies p graph []).
          \<exists>m. map_of (dependencies graph) k = Some m \<and> v = inverseDependencies m"
  proof (intro ballI, clarify)
    fix k v assume kv: "(k, v) \<in> set (getInverseDependencies p graph [])"
    then have "k \<in> fst ` set (getInverseDependencies p graph [])" by force
    then obtain m where m: "map_of (dependencies graph) k = Some m"
        "map_of (getInverseDependencies p graph []) k = Some (inverseDependencies m)"
      using resolver_entries(1) [of "[]" p graph] by auto
    moreover have "map_of (getInverseDependencies p graph []) k = Some v"
      using d kv by simp
    ultimately show "\<exists>m. map_of (dependencies graph) k = Some m \<and> v = inverseDependencies m"
      by simp
  qed
  let ?g = "\<lparr>dependencies =
    [(''/a.js'', \<lparr>Module.path = ''/a.js'', inverseDependencies = [''/gone.js'']\<rparr>)]\<rparr>"
  have r: "getInverseDependencies ''/a.js'' ?g [] = [(''/a.js'', [''/gone.js''])]"
    by (simp add: getInverseDependencies.simps js_in_def objectPrototypeKeys_def)
  have "map_of (dependencies ?g) ''/gone.js'' = None
        \<and> (''/a.js'', [''/gone.js'']) \<in> set (getInverseDependencies ''/a.js'' ?g [])
        \<and> ''/gone.js'' \<in> set [''/gone.js'']
        \<and> ''/gone.js'' \<notin> fst ` set (getInverseDependencies ''/a.js'' ?g [])"
    unfolding r by simp
  then show "\<exists>(g :: unit Graph) q k v x.
          map_of (dependencies g) x = None
        \<and> (k, v) \<in> set (getInverseDependencies q g []) \<and> x \<in> set v
        \<and> x \<notin> fst ` set (getInverseDependencies q g [])"
    by blast
qed

theorem resolver_entries_mirror_graph_witness:
  "(''/b.js'', [''/a.js'', ''/gone.js''])
      \<in> set (getInverseDependencies ''/b.js'' \<lparr>dependencies =
         [(''/a.js'', \<lparr>Module.path = ''/a.js'', inverseDependencies = []\<rparr>),
          (''/b.js'', \<lparr>Module.path = ''/b.js'',
                      inverseDependencies = [''/a.js'', ''/gone.js'']\<rparr>)]\<rparr> [])
   \<and> (\<exists>m. map_of [(''/a.js'', \<lparr>Module.path = ''/a.js'', inverseDependencies = []\<rparr>),
          (''/b.js'', \<lparr>Module.path = ''/b.js'',
                      inverseDependencies = [''/a.js'', ''/gone.js'']\<rparr>)] ''/b.js'' = Some m
        \<and> [''/a.js'', ''/gone.js''] = inverseDependencies m)"
proof -
  let ?g = "\<lparr>dependencies =
         [(''/a.js'', \<lparr>Module.path = ''/a.js'', inverseDependencies = []\<rparr>),
          (''/b.js'', \<lparr>Module.path = ''/b.js'',
                      inverseDependencies = [''/a.js'', ''/gone.js'']\<rparr>)]\<rparr>"
  have r: "getInverseDependencies ''/b.js'' ?g []
      = [(''/b.js'', [''/a.js'', ''/gone.js'']), (''/a.js'', [])]"
    by (simp add: getInverseDependencies.simps js_in_def objectPrototypeKeys_def)
  then have "(''/b.js'', [''/a.js'', ''/gone.js'']) \<in> set (getInverseDependencies ''/b.js'' ?g [])"
    by simp
  then show ?thesis
    using resolver_entries_mirror_graph [of "''/b.js''" ?g] by auto
qed

text \<open>
  C2. The resolution terminates from every path, on every graph and from every
  accumulator: every argument of \<^const>\<open>getInverseDependencies\<close> lies in the domain
  on which its recursion is well-founded. The reason is the order of lines 160 and
  165: the path becomes a key before its inverse dependencies are visited, so each
  call that gets past the two early returns uses up one of the finitely many graph
  entries that are not yet keys (\<^const>\<open>unvisited\<close>), also round a cycle. On a graph
  in which \<^verbatim>\<open>A\<close> has the inverse dependencies \<^verbatim>\<open>[B]\<close> and \<^verbatim>\<open>B\<close> has \<^verbatim>\<open>[A]\<close>,
  resolving from \<^verbatim>\<open>A\<close> returns the two entries \<^verbatim>\<open>{A: [B], B: [A]}\<close>, each key once.
\<close>

theorem resolver_terminates_on_cycles:
  fixes graph :: "'m Graph"
  shows "getInverseDependencies_getInverseDependencies_loop_dom (Inl (p, graph, acc))
    \<and> (map_of (dependencies graph) ''A'' = Some ma \<and> inverseDependencies ma = [''B'']
       \<and> map_of (dependencies graph) ''B'' = Some mb \<and> inverseDependencies mb = [''A'']
       \<longrightarrow> getInverseDependencies ''A'' graph [] = [(''A'', [''B'']), (''B'', [''A''])])"
proof
  show "getInverseDependencies_getInverseDependencies_loop_dom (Inl (p, graph, acc))"
    using resolver_dom_total by blast
next
  show "map_of (dependencies graph) ''A'' = Some ma \<and> inverseDependencies ma = [''B'']
       \<and> map_of (dependencies graph) ''B'' = Some mb \<and> inverseDependencies mb = [''A'']
       \<longrightarrow> getInverseDependencies ''A'' graph [] = [(''A'', [''B'']), (''B'', [''A''])]"
    by (simp add: getInverseDependencies.simps js_in_def objectPrototypeKeys_def)
qed

theorem resolver_terminates_on_cycles_witness:
  "getInverseDependencies_getInverseDependencies_loop_dom
     (Inl (''A'', \<lparr>dependencies =
        [(''A'', \<lparr>Module.path = ''A'', inverseDependencies = [''B'']\<rparr>),
         (''B'', \<lparr>Module.path = ''B'', inverseDependencies = [''A'']\<rparr>)]\<rparr>, []))
   \<and> getInverseDependencies ''A'' \<lparr>dependencies =
        [(''A'', \<lparr>Module.path = ''A'', inverseDependencies = [''B'']\<rparr>),
         (''B'', \<lparr>Module.path = ''B'', inverseDependencies = [''A'']\<rparr>)]\<rparr> []
      = [(''A'', [''B'']), (''B'', [''A''])]"
  using resolver_terminates_on_cycles
    [of "''A''" "\<lparr>dependencies =
        [(''A'', \<lparr>Module.path = ''A'', inverseDependencies = [''B'']\<rparr>),
         (''B'', \<lparr>Module.path = ''B'', inverseDependencies = [''A'']\<rparr>)]\<rparr>" "[]"
        "\<lparr>Module.path = ''A'', inverseDependencies = [''B'']\<rparr>"
        "\<lparr>Module.path = ''B'', inverseDependencies = [''A'']\<rparr>"]
  by simp

text \<open>
  C3. In one resolution no path is expanded twice: the log of a call from the empty
  accumulator holds \<open>Expand q\<close> at most once for every \<open>q\<close>. On the diamond
  (\<^verbatim>\<open>A\<close> with inverse dependencies \<^verbatim>\<open>[B, C]\<close>, \<^verbatim>\<open>B\<close> and \<^verbatim>\<open>C\<close> with \<^verbatim>\<open>[D]\<close>),
  \<^verbatim>\<open>D\<close> is reached through \<^verbatim>\<open>B\<close> and again through \<^verbatim>\<open>C\<close>; it is looked up once and
  expanded once, the second visit stopping at the test of line 151, and it is a key of
  the result once.
\<close>

theorem each_path_expanded_once:
  fixes graph :: "'m Graph"
  shows "(\<forall>q. count_list (snd (getInverseDependencies_traced p graph ([], []))) (Expand q) \<le> 1)
    \<and> getInverseDependencies_traced ''A'' \<lparr>dependencies =
         [(''A'', \<lparr>Module.path = ''A'', inverseDependencies = [''B'', ''C'']\<rparr>),
          (''B'', \<lparr>Module.path = ''B'', inverseDependencies = [''D'']\<rparr>),
          (''C'', \<lparr>Module.path = ''C'', inverseDependencies = [''D'']\<rparr>),
          (''D'', \<lparr>Module.path = ''D'', inverseDependencies = []\<rparr>)]\<rparr> ([], [])
       = ([(''A'', [''B'', ''C'']), (''B'', [''D'']), (''D'', []), (''C'', [''D''])],
          [Lookup ''A'', Expand ''A'', Lookup ''B'', Expand ''B'',
           Lookup ''D'', Expand ''D'', Lookup ''C'', Expand ''C''])
    \<and> count_list [Lookup ''A'', Expand ''A'', Lookup ''B'', Expand ''B'',
           Lookup ''D'', Expand ''D'', Lookup ''C'', Expand ''C''] (Lookup ''D'') = 1
    \<and> count_list [Lookup ''A'', Expand ''A'', Lookup ''B'', Expand ''B'',
           Lookup ''D'', Expand ''D'', Lookup ''C'', Expand ''C''] (Expand ''D'') = 1
    \<and> count_list (map fst [(''A'', [''B'', ''C'']), (''B'', [''D'']), (''D'', []),
           (''C'', [''D''])]) ''D'' = 1"
proof (intro conjI)
  have "expansions_once (([], []) :: string list js_object \<times> event list)"
    by (simp add: expansions_once_def)
  then have "expansions_once (getInverseDependencies_traced p graph ([], []))"
    by (rule traced_expansions_once(1))
  then show "\<forall>q. count_list (snd (getInverseDependencies_traced p graph ([], []))) (Expand q) \<le> 1"
    by (simp add: expansions_once_def)
qed (simp_all add: getInverseDependencies_traced.simps js_in_def objectPrototypeKeys_def)

text \<open>
  C7, as amended. For a module whose \<^verbatim>\<open>inverseDependencies\<close> is empty, and whose path
  is not a property name that an object literal inherits from \<^verbatim>\<open>Object.prototype\<close>,
  the resolution of its path is the one entry \<^verbatim>\<open>{path: []}\<close>. The parameter that
  \<^verbatim>\<open>_prepareModule\<close> injects into the module's wrapped call is then the mapping with
  the one entry \<^verbatim>\<open>{createModuleId(path): []}\<close>: the module's own id with no inverse
  dependencies, not a mapping without entries.
\<close>

theorem leaf_module_resolution:
  fixes graph :: "'m Graph"
  assumes "map_of (dependencies graph) (Module.path module) = Some m"
    and "inverseDependencies m = []"
    and "Module.path module \<notin> set objectPrototypeKeys"
  shows "getInverseDependencies (Module.path module) graph [] = [(Module.path module, [])]
    \<and> inverseDependenciesById (createModuleId opts)
          (getInverseDependencies (Module.path module) graph [])
        = [(createModuleId opts (Module.path module), [])]
    \<and> prepareModule env module graph opts
        = addParamsToDefineCall env
            (wrapModule env module
               \<lparr>clientUrl = clientUrl opts, createModuleId = createModuleId opts,
                projectRoot = projectRoot opts, dev = True\<rparr>)
            [(createModuleId opts (Module.path module), [])]"
  using assms
  by (simp add: getInverseDependencies.simps js_in_def inverseDependenciesById_def
      Object_keys_single prepareModule_def)

theorem leaf_module_resolution_witness:
  "getInverseDependencies ''/b.js'' (arg_graph demoArgs) [] = [(''/b.js'', [])]
   \<and> inverseDependenciesById (createModuleId (arg_options demoArgs))
        (getInverseDependencies ''/b.js'' (arg_graph demoArgs) []) = [(2, [])]
   \<and> prepareModule demoHelpers \<lparr>Module.path = ''/b.js'', inverseDependencies = []\<rparr>
        (arg_graph demoArgs) (arg_options demoArgs) = ''__d(function(){},/b.js),inv''"
proof -
  let ?b = "\<lparr>Module.path = ''/b.js'', inverseDependencies = []\<rparr>"
  have "map_of (dependencies (arg_graph demoArgs)) (Module.path ?b) = Some ?b"
    and "inverseDependencies ?b = []"
    and "Module.path ?b \<notin> set objectPrototypeKeys"
    by (simp_all add: demoArgs_def objectPrototypeKeys_def)
  from leaf_module_resolution [OF this, of "arg_options demoArgs" demoHelpers]
  have t: "getInverseDependencies (Module.path ?b) (arg_graph demoArgs) [] = [(Module.path ?b, [])]"
    "inverseDependenciesById (createModuleId (arg_options demoArgs))
          (getInverseDependencies (Module.path ?b) (arg_graph demoArgs) [])
        = [(createModuleId (arg_options demoArgs) (Module.path ?b), [])]"
    "prepareModule demoHelpers ?b (arg_graph demoArgs) (arg_options demoArgs)
        = addParamsToDefineCall demoHelpers
            (wrapModule demoHelpers ?b
               \<lparr>clientUrl = clientUrl (arg_options demoArgs),
                createModuleId = createModuleId (arg_options demoArgs),
                projectRoot = projectRoot (arg_options demoArgs), dev = True\<rparr>)
            [(createModuleId (arg_options demoArgs) (Module.path ?b), [])]"
    by blast+
  have p: "Module.path ?b = ''/b.js''"
    by simp
  have i: "createModuleId (arg_options demoArgs) ''/b.js'' = 2"
    by (simp add: demoArgs_def)
  have w: "addParamsToDefineCall demoHelpers (wrapModule demoHelpers ?b opts) [(2, [])]
      = ''__d(function(){},/b.js),inv''" for opts
    by (simp add: demoHelpers_def)
  show ?thesis
    using t unfolding p i w by blast
qed

text \<open>
  C7 as the claim states it fails twice. For the leaf \<^verbatim>\<open>/a.js\<close> with id 7 the injected
  parameter has an entry, so it is not the empty mapping. And for a leaf whose path is
  \<^verbatim>\<open>toString\<close> the test \<^verbatim>\<open>path in inverseDependencies\<close> of line 151 is true on the
  empty object, so the resolution returns no entry at all.
\<close>

theorem leaf_module_parameter_counterexample:
  "inverseDependenciesById (\<lambda>p. 7) (getInverseDependencies ''/a.js''
      \<lparr>dependencies = [(''/a.js'', \<lparr>Module.path = ''/a.js'', inverseDependencies = []\<rparr>)]\<rparr> [])
     \<noteq> []
   \<and> getInverseDependencies ''toString''
      \<lparr>dependencies = [(''toString'', \<lparr>Module.path = ''toString'', inverseDependencies = []\<rparr>)]\<rparr> []
     \<noteq> [(''toString'', [])]"
  by (simp add: getInverseDependencies.simps js_in_def objectPrototypeKeys_def
      inverseDependenciesById_def Object_keys_single)

section \<open>Claims about the payload\<close>

text \<open>
  C1. In the payload of every call, \<^verbatim>\<open>added\<close>, \<^verbatim>\<open>addedSourceMappingURLs\<close> and
  \<^verbatim>\<open>addedSourceURLs\<close> are aligned with the source modules of \<^verbatim>\<open>delta.added\<close> in
  iteration order, and the three \<^verbatim>\<open>modified\<close> arrays with the source modules of
  \<^verbatim>\<open>delta.modified\<close>: equal lengths, one entry per eligible module, and at index
  \<open>i\<close> the record and the two URLs computed for the \<open>i\<close>-th eligible module. The
  first modified module is wrapped with the options as the last added one left them.
\<close>

theorem payload_arrays_aligned:
  "let payload = fst (hmrJSBundle env args);
       jsAdded = filter (isJsModule env) (map snd (DeltaResult.added (arg_delta args)));
       jsModified = filter (isJsModule env) (map snd (DeltaResult.modified (arg_delta args)))
   in aligned env (arg_graph args) (arg_options args) None jsAdded
        (added payload) (addedSourceMappingURLs payload) (addedSourceURLs payload)
    \<and> aligned env (arg_graph args) (arg_options args)
        (if jsAdded = [] then None else Some (last jsAdded)) jsModified
        (modified payload) (modifiedSourceMappingURLs payload) (modifiedSourceURLs payload)"
proof -
  let ?o = "arg_options args"
  let ?A = "map snd (DeltaResult.added (arg_delta args))"
  let ?prev = "if filter (isJsModule env) ?A = [] then None else Some (last (filter (isJsModule env) ?A))"
  have o0: "?o = optionsSeenBy env ?o None"
    by (simp add: optionsSeenBy_def)
  have o1: "snd (generateModules env ?A (arg_graph args) ?o) = optionsSeenBy env ?o ?prev"
    by (simp add: generateModules_options optionsSeenBy_def)
  have a: "aligned env (arg_graph args) ?o None (filter (isJsModule env) ?A)
     (modules (fst (generateModules env ?A (arg_graph args) ?o)))
     (sourceMappingURLs (fst (generateModules env ?A (arg_graph args) ?o)))
     (sourceURLs (fst (generateModules env ?A (arg_graph args) ?o)))"
    using generateModules_aligned [of env "arg_graph args" ?o None ?A] o0 by simp
  show ?thesis
    unfolding Let_def hmrJSBundle_def case_prod_beta fst_conv HMRPayload.simps o1
    using a generateModules_aligned [of env "arg_graph args" ?o ?prev]
    by simp
qed


theorem payload_arrays_aligned_witness:
  "length (added (fst (hmrJSBundle demoHelpers demoArgs))) = 1
   \<and> length (addedSourceMappingURLs (fst (hmrJSBundle demoHelpers demoArgs))) = 1
   \<and> length (addedSourceURLs (fst (hmrJSBundle demoHelpers demoArgs))) = 1
   \<and> fst (added (fst (hmrJSBundle demoHelpers demoArgs)) ! 0) = 1
   \<and> addedSourceMappingURLs (fst (hmrJSBundle demoHelpers demoArgs)) ! 0 = ''data:/a.js''
   \<and> addedSourceURLs (fst (hmrJSBundle demoHelpers demoArgs)) ! 0 = ''http://localhost:8081/a.bundle''
   \<and> length (modified (fst (hmrJSBundle demoHelpers demoArgs))) = 1
   \<and> fst (modified (fst (hmrJSBundle demoHelpers demoArgs)) ! 0) = 2
   \<and> modifiedSourceMappingURLs (fst (hmrJSBundle demoHelpers demoArgs)) ! 0 = ''data:/b.js''
   \<and> modifiedSourceURLs (fst (hmrJSBundle demoHelpers demoArgs)) ! 0 = ''http://localhost:8081/b.bundle''"
proof -
  have a: "filter (isJsModule demoHelpers) (map snd (DeltaResult.added (arg_delta demoArgs)))
      = [\<lparr>Module.path = ''/a.js'', inverseDependencies = [''/b.js'']\<rparr>]"
    and m: "filter (isJsModule demoHelpers) (map snd (DeltaResult.modified (arg_delta demoArgs)))
      = [\<lparr>Module.path = ''/b.js'', inverseDependencies = []\<rparr>]"
    by (simp_all add: demoArgs_def demoHelpers_def)
  have o: "createModuleId (arg_options demoArgs) ''/a.js'' = 1"
    "createModuleId (arg_options demoArgs) ''/b.js'' = 2"
    "projectRoot (arg_options demoArgs) = ''/''"
    by (simp_all add: demoArgs_def)
  have h: "getSourceMapInfo demoHelpers = (\<lambda>m excludeSource. \<lparr>path = Module.path m\<rparr>)"
    "fromRawMappings_toString demoHelpers = (\<lambda>ms excludeSource. concat (map path ms))"
    "getInlineSourceMappingURL demoHelpers = (\<lambda>s. ''data:'' @ s)"
    "url_format demoHelpers = (\<lambda>u. ''http://localhost:8081/'' @ pathname u)"
    by (simp_all add: demoHelpers_def)
  have b: "bundlePathname demoHelpers ''/'' \<lparr>path = ''/a.js''\<rparr> = ''a.bundle''"
    "bundlePathname demoHelpers ''/'' \<lparr>path = ''/b.js''\<rparr> = ''b.bundle''"
    by (simp_all add: bundlePathname_def demoHelpers_def)
  show ?thesis
    using payload_arrays_aligned [of demoHelpers demoArgs]
    unfolding Let_def a m aligned_def
    by (simp add: o h b)
qed

text \<open>
  C4. The \<^verbatim>\<open>deleted\<close> field is \<^verbatim>\<open>delta.deleted\<close> in enumeration order with
  \<^verbatim>\<open>options.createModuleId\<close> applied to each path; for the paths \<^verbatim>\<open>/a.js\<close> and
  \<^verbatim>\<open>/b.js\<close> with ids 1 and 2 it is \<^verbatim>\<open>[1, 2]\<close>.
\<close>

theorem deleted_translated:
  "deleted (fst (hmrJSBundle env args))
     = map (createModuleId (arg_options args)) (DeltaResult.deleted (arg_delta args))
   \<and> (DeltaResult.deleted (arg_delta args) = [''/a.js'', ''/b.js'']
        \<and> createModuleId (arg_options args) ''/a.js'' = 1
        \<and> createModuleId (arg_options args) ''/b.js'' = 2
      \<longrightarrow> deleted (fst (hmrJSBundle env args)) = [1, 2])"
  by (simp add: hmrJSBundle_def case_prod_beta generateModules_createModuleId)

theorem deleted_translated_witness:
  "deleted (fst (hmrJSBundle demoHelpers demoArgs)) = [1, 2]"
  using deleted_translated [of demoHelpers demoArgs]
  by (simp add: demoArgs_def)

text \<open>
  C5. A module of \<^verbatim>\<open>delta.added\<close> or of \<^verbatim>\<open>delta.modified\<close> that is not a source
  module contributes nothing: with it or without it, at any place of the collection, the
  call returns the same payload, all seven fields alike.
\<close>

theorem non_js_module_contributes_nothing:
  assumes "\<not> isJsModule env m"
  shows "fst (hmrJSBundle env
            (args\<lparr>arg_delta := (arg_delta args)\<lparr>DeltaResult.added := xs @ (k, m) # ys\<rparr>\<rparr>))
       = fst (hmrJSBundle env
            (args\<lparr>arg_delta := (arg_delta args)\<lparr>DeltaResult.added := xs @ ys\<rparr>\<rparr>))
     \<and> fst (hmrJSBundle env
            (args\<lparr>arg_delta := (arg_delta args)\<lparr>DeltaResult.modified := xs @ (k, m) # ys\<rparr>\<rparr>))
       = fst (hmrJSBundle env
            (args\<lparr>arg_delta := (arg_delta args)\<lparr>DeltaResult.modified := xs @ ys\<rparr>\<rparr>))"
proof -
  have f: "filter (isJsModule env) (map snd (xs @ (k, m) # ys))
      = filter (isJsModule env) (map snd (xs @ ys))"
    using assms by simp
  have g: "generateModules env (map snd (xs @ (k, m) # ys)) graph opts
      = generateModules env (map snd (xs @ ys)) graph opts" for graph opts
    unfolding generateModules_def
    using generateModules_loop_skips [of env "map snd (xs @ (k, m) # ys)"]
      generateModules_loop_skips [of env "map snd (xs @ ys)"] f
    by metis
  show ?thesis
    by (simp add: hmrJSBundle_def case_prod_beta g del: map_append)
qed

theorem non_js_module_contributes_nothing_witness:
  "\<not> isJsModule demoHelpers \<lparr>Module.path = ''/x.png'', inverseDependencies = [''/a.js'']\<rparr>
   \<and> fst (hmrJSBundle demoHelpers demoArgs)
     = fst (hmrJSBundle demoHelpers
         (demoArgs\<lparr>arg_delta := (arg_delta demoArgs)\<lparr>DeltaResult.added :=
            [(''/a.js'', \<lparr>Module.path = ''/a.js'', inverseDependencies = [''/b.js'']\<rparr>)]\<rparr>\<rparr>))"
proof -
  have n: "\<not> isJsModule demoHelpers \<lparr>Module.path = ''/x.png'', inverseDependencies = [''/a.js'']\<rparr>"
    by (simp add: demoHelpers_def)
  have d: "demoArgs\<lparr>arg_delta := (arg_delta demoArgs)\<lparr>DeltaResult.added :=
       [(''/a.js'', \<lparr>Module.path = ''/a.js'', inverseDependencies = [''/b.js'']\<rparr>)]
       @ (''/x.png'', \<lparr>Module.path = ''/x.png'', inverseDependencies = [''/a.js'']\<rparr>) # []\<rparr>\<rparr>
     = demoArgs"
    by (simp add: demoArgs_def)
  show ?thesis
    using n non_js_module_contributes_nothing [OF n, where args = demoArgs
        and xs = "[(''/a.js'', \<lparr>Module.path = ''/a.js'', inverseDependencies = [''/b.js'']\<rparr>)]"
        and k = "''/x.png''" and ys = "[]"]
    unfolding d by simp
qed

text \<open>
  C6. Two calls in a row on the same arguments return the same payload, although the
  first call leaves another pathname in \<^verbatim>\<open>options.clientUrl\<close>. The helpers are
  functions of their arguments, and \<^verbatim>\<open>createModuleId\<close> is one; of \<^verbatim>\<open>wrapModule\<close>,
  which is handed a copy of the options, the hypothesis says that it does not read
  \<^verbatim>\<open>clientUrl.pathname\<close>.
\<close>

theorem repeated_call_same_payload:
  assumes "\<And>m w x. wrapModule env m (w\<lparr>clientUrl := (clientUrl w)\<lparr>pathname := x\<rparr>\<rparr>)
             = wrapModule env m w"
  shows "fst (hmrJSBundle env (snd (hmrJSBundle env args))) = fst (hmrJSBundle env args)"
proof -
  show ?thesis
    unfolding hmrJSBundle_snd [of env args] by (rule hmrJSBundle_pathname [OF assms])
qed

theorem repeated_call_same_payload_witness:
  "fst (hmrJSBundle demoHelpers (snd (hmrJSBundle demoHelpers demoArgs)))
     = fst (hmrJSBundle demoHelpers demoArgs)"
  by (rule repeated_call_same_payload) (simp add: demoHelpers_def)

text \<open>
  C9. The call writes to the options object of the caller and to nothing else: the
  graph and the delta come back as they were, and so does every field of the options
  but \<^verbatim>\<open>clientUrl.pathname\<close>. Each eligible module overwrites the pathname with its
  own bundle path, so the call leaves the one of the last source module of
  \<^verbatim>\<open>delta.modified\<close>, or of \<^verbatim>\<open>delta.added\<close> when \<^verbatim>\<open>delta.modified\<close> has none, and
  the old pathname when neither has one.
\<close>

theorem options_pathname_overwritten:
  "arg_graph (snd (hmrJSBundle env args)) = arg_graph args
   \<and> arg_delta (snd (hmrJSBundle env args)) = arg_delta args
   \<and> arg_options (snd (hmrJSBundle env args))
       = (arg_options args)\<lparr>clientUrl := (clientUrl (arg_options args))\<lparr>pathname :=
           (let jsAdded = filter (isJsModule env) (map snd (DeltaResult.added (arg_delta args)));
                jsModified = filter (isJsModule env) (map snd (DeltaResult.modified (arg_delta args)))
            in if jsModified \<noteq> [] then
                 bundlePathname env (projectRoot (arg_options args))
                   (getSourceMapInfo env (last jsModified) False)
               else if jsAdded \<noteq> [] then
                 bundlePathname env (projectRoot (arg_options args))
                   (getSourceMapInfo env (last jsAdded) False)
               else pathname (clientUrl (arg_options args)))\<rparr>\<rparr>
   \<and> (isJsModule env m \<longrightarrow>
        snd (generateModules_loop env [m] graph (out, opts))
          = opts\<lparr>clientUrl := (clientUrl opts)\<lparr>pathname :=
              bundlePathname env (projectRoot opts) (getSourceMapInfo env m False)\<rparr>\<rparr>)"
  by (simp add: hmrJSBundle_snd Let_def)

theorem options_pathname_overwritten_witness:
  "arg_graph (snd (hmrJSBundle demoHelpers demoArgs)) = arg_graph demoArgs
   \<and> arg_delta (snd (hmrJSBundle demoHelpers demoArgs)) = arg_delta demoArgs
   \<and> pathname (clientUrl (arg_options demoArgs)) = ''index.bundle''
   \<and> pathname (clientUrl (arg_options (snd (hmrJSBundle demoHelpers demoArgs)))) = ''b.bundle''"
  using options_pathname_overwritten [of demoHelpers demoArgs]
  by (simp add: demoArgs_def demoHelpers_def bundlePathname_def)

end
